theory Spec2Isabelle
  imports Main "HOL-Library.AList" "HOL-Library.Multiset" "HOL-Library.Extended_Nat"
begin

section \<open>ConfigMerger: \<open>mergeValues\<close> on configuration values\<close>

text \<open>
  A Go value of type \<open>map[string]interface{}\<close> as produced by the YAML decoder: every
  entry holds a scalar (string, number, bool, nil; the payload is opaque to the merge), a
  sequence, or another map. A map is an association list; Go's maps have each key once,
  which is the predicate \<open>wf_val\<close>. The list order stands for one iteration order of
  \<open>range\<close>; no theorem below depends on it.
\<close>

datatype val = Scalar string | Seq "val list" | Tree "(string \<times> val) list"

type_synonym tree = "(string \<times> val) list"

fun wf_val :: "val \<Rightarrow> bool" where
  "wf_val (Scalar s) = True"
| "wf_val (Seq vs) = True"
| "wf_val (Tree t) = (distinct (map fst t) \<and> (\<forall>(k, v) \<in> set t. wf_val v))"

text \<open>
  \<open>mergeValues\<close> (main.go, lines 149 to 178), with the mutation of \<open>dest\<close> as state
  passing: each iteration of \<open>for k, v := range src\<close> stores one value at \<open>dest[k]\<close>
  and goes on with the updated map. The branches are the source's, in its order:
  key absent; \<open>v\<close> no map; \<open>dest[k]\<close> no map; both maps.
\<close>

function mergeValues :: "tree \<Rightarrow> tree \<Rightarrow> tree" where
  "mergeValues dest [] = dest"
| "mergeValues dest ((k, v) # src) =
     mergeValues
       (case map_of dest k of
          None \<Rightarrow> AList.update k v dest
        | Some d \<Rightarrow>
            (case v of
               Tree nextMap \<Rightarrow>
                 (case d of
                    Tree destMap \<Rightarrow> AList.update k (Tree (mergeValues destMap nextMap)) dest
                  | _ \<Rightarrow> AList.update k v dest)
             | _ \<Rightarrow> AList.update k v dest))
       src"
  by pat_completeness auto
termination
  by (relation "measure (\<lambda>(dest, src). size_list (size_prod (\<lambda>_. 0) size) src)") auto

text \<open>The value one iteration stores at \<open>dest[k]\<close>, given what \<open>dest[k]\<close> held before.\<close>

definition stored :: "val option \<Rightarrow> val \<Rightarrow> val" where
  "stored old v =
     (case old of
        None \<Rightarrow> v
      | Some d \<Rightarrow>
          (case v of
             Tree nextMap \<Rightarrow>
               (case d of Tree destMap \<Rightarrow> Tree (mergeValues destMap nextMap) | _ \<Rightarrow> v)
           | _ \<Rightarrow> v))"

text \<open>
  The loop of \<open>vals\<close> (main.go, lines 123 to 138) over the decoded values files, and the
  merge of a sequence of overrides as \<open>vals\<close> computes it: from the empty map.
\<close>

fun vals_loop :: "tree \<Rightarrow> tree list \<Rightarrow> tree" where
  "vals_loop base [] = base"
| "vals_loop base (currentMap # files) = vals_loop (mergeValues base currentMap) files"

definition merge_sequence :: "tree list \<Rightarrow> tree" where
  "merge_sequence files = vals_loop [] files"

text \<open>
  The side condition of associativity: no key at which \<open>b\<close> and \<open>c\<close> both hold a map
  while \<open>a\<close> holds a value that is no map, here and below every key at which all three hold
  maps.
\<close>

fun no_scalar_between :: "tree \<Rightarrow> tree \<Rightarrow> tree \<Rightarrow> bool" where
  "no_scalar_between b a c =
     (\<forall>(k, w) \<in> set c.
        (case w of
           Tree tc \<Rightarrow>
             (case map_of b k of
                Some (Tree tb) \<Rightarrow>
                  (case map_of a k of
                     None \<Rightarrow> True
                   | Some (Tree ta) \<Rightarrow> no_scalar_between tb ta tc
                   | Some _ \<Rightarrow> False)
              | _ \<Rightarrow> True)
         | _ \<Rightarrow> True))"


section \<open>ManifestClassifier: data\<close>

text \<open>
  \<open>release.Hook_Event\<close> and the fields of \<open>release.Hook\<close> that \<open>sortManifests\<close> sets.
\<close>

datatype Hook_Event =
    Hook_UNKNOWN | Hook_PRE_INSTALL | Hook_POST_INSTALL | Hook_PRE_DELETE | Hook_POST_DELETE
  | Hook_PRE_UPGRADE | Hook_POST_UPGRADE | Hook_PRE_ROLLBACK | Hook_POST_ROLLBACK
  | Hook_RELEASE_TEST_SUCCESS | Hook_RELEASE_TEST_FAILURE

record Hook =
  Name :: string
  Kind :: string
  Path :: string
  Manifest :: string
  Events :: "Hook_Event list"

text \<open>
  \<open>util.SimpleHead\<close>: the API version, the kind and the optional metadata (a pointer in
  Go) with its name and its annotations (a map that may be nil). \<open>manifest\<close> is the struct
  of main.go, lines 213 to 217. Where a field name is also a field of \<open>Hook\<close>, the plain
  name is the one of \<open>SimpleHead\<close> and \<open>Meta\<close>, and \<open>Hook.Name\<close>, \<open>Hook.Kind\<close> are
  written out.
\<close>

record Meta =
  Name :: string
  Annotations :: "(string \<times> string) list option"

record SimpleHead =
  Version :: string
  Kind :: string
  Metadata :: "Meta option"

record manifest =
  name :: string
  content :: string
  head :: SimpleHead

text \<open>
  The table \<open>events\<close> (main.go, lines 199 to 210).
  Modelled from the spec: the keys are the constants \<open>hooks.PreInstall\<close> to
  \<open>hooks.ReleaseTestFailure\<close> of Helm's package \<open>hooks\<close>, which the repository imports;
  their strings are the recognized names the spec lists. \<open>hooks.HookAnno\<close> is the
  annotation key that the comment of \<open>sortManifests\<close> shows.
\<close>

definition events :: "string \<rightharpoonup> Hook_Event" where
  "events = map_of
     [(''pre-install'', Hook_PRE_INSTALL),
      (''post-install'', Hook_POST_INSTALL),
      (''pre-delete'', Hook_PRE_DELETE),
      (''post-delete'', Hook_POST_DELETE),
      (''pre-upgrade'', Hook_PRE_UPGRADE),
      (''post-upgrade'', Hook_POST_UPGRADE),
      (''pre-rollback'', Hook_PRE_ROLLBACK),
      (''post-rollback'', Hook_POST_ROLLBACK),
      (''release-test-success'', Hook_RELEASE_TEST_SUCCESS),
      (''release-test-failure'', Hook_RELEASE_TEST_FAILURE)]"

definition HookAnno :: string where
  "HookAnno = ''helm.sh/hook''"

section \<open>Library functions\<close>

text \<open>
  Go's \<open>strings.HasPrefix\<close>, \<open>strings.Split\<close> (with a separator of one byte) and
  \<open>path.Base\<close> work on bytes and are written out. \<open>path.Base\<close> returns \<open>"."\<close> for the
  empty path, strips trailing slashes, keeps what follows the last slash and returns
  \<open>"/"\<close> when nothing is left.
\<close>

definition HasPrefix :: "string \<Rightarrow> string \<Rightarrow> bool" where
  "HasPrefix s prefix' = (length s \<ge> length prefix' \<and> take (length prefix') s = prefix')"

fun Split_from :: "string \<Rightarrow> char \<Rightarrow> string \<Rightarrow> string list" where
  "Split_from cur sep [] = [rev cur]"
| "Split_from cur sep (x # s) =
     (if x = sep then rev cur # Split_from [] sep s else Split_from (x # cur) sep s)"

definition Split :: "string \<Rightarrow> char \<Rightarrow> string list" where
  "Split s sep = Split_from [] sep s"

definition path_Base :: "string \<Rightarrow> string" where
  "path_Base path =
     (if path = [] then ''.''
      else
        let stripped = rev (dropWhile (\<lambda>c. c = CHR ''/'') (rev path));
            last_elem = rev (takeWhile (\<lambda>c. c \<noteq> CHR ''/'') (rev stripped))
        in if last_elem = [] then ''/'' else last_elem)"

text \<open>
  \<open>strings.TrimSpace\<close> and \<open>strings.ToLower\<close> follow Unicode, and \<open>yaml.Unmarshal\<close>
  into a \<open>SimpleHead\<close> is the YAML decoder: none of them is code of the repository.
  They are parameters of the model, so every theorem below that is stated for \<open>L\<close> holds
  for whatever these functions compute. \<open>Unmarshal\<close> answers with the decoder's error
  message or with the decoded head.
\<close>

record pkgs =
  TrimSpace :: "string \<Rightarrow> string"
  ToLower :: "string \<Rightarrow> string"
  Unmarshal :: "string \<Rightarrow> string + SimpleHead"

text \<open>
  What \<open>TrimSpace\<close> and \<open>ToLower\<close> compute on ASCII text, for the concrete documents
  of the examples, and a decoder given by a table of texts and their heads.
\<close>

definition asciiSpace :: "char \<Rightarrow> bool" where
  "asciiSpace c = (c \<in> {CHR 0x09, CHR 0x0A, CHR 0x0B, CHR 0x0C, CHR 0x0D, CHR '' ''})"

definition ascii_TrimSpace :: "string \<Rightarrow> string" where
  "ascii_TrimSpace s = rev (dropWhile asciiSpace (rev (dropWhile asciiSpace s)))"

definition ascii_lower :: "char \<Rightarrow> char" where
  "ascii_lower c =
     (case map_of (zip ''ABCDEFGHIJKLMNOPQRSTUVWXYZ'' ''abcdefghijklmnopqrstuvwxyz'') c of
        Some l \<Rightarrow> l
      | None \<Rightarrow> c)"

definition ascii_ToLower :: "string \<Rightarrow> string" where
  "ascii_ToLower s = map ascii_lower s"

definition decode_table :: "(string \<times> SimpleHead) list \<Rightarrow> string \<Rightarrow> string + SimpleHead" where
  "decode_table t c = (case map_of t c of Some sh \<Rightarrow> Inr sh | None \<Rightarrow> Inl ''cannot unmarshal'')"

definition go_ascii :: "(string \<Rightarrow> string + SimpleHead) \<Rightarrow> pkgs" where
  "go_ascii U = \<lparr>TrimSpace = ascii_TrimSpace, ToLower = ascii_ToLower, Unmarshal = U\<rparr>"

text \<open>\<open>chartutil.VersionSet\<close> is a set of version strings with the test \<open>Has\<close>.\<close>

type_synonym VersionSet = "string set"

definition Has :: "VersionSet \<Rightarrow> string \<Rightarrow> bool" where
  "Has apis v = (v \<in> apis)"

section \<open>KindSorter\<close>

type_synonym SortOrder = "string list"

definition InstallOrder :: SortOrder where
  "InstallOrder =
     [''Project'', ''Secret'', ''ConfigMap'', ''PersistentVolume'', ''PersistentVolumeClaim'',
      ''ServiceAccount'', ''ClusterRole'', ''ClusterRoleBinding'', ''Role'', ''RoleBinding'',
      ''ImageStream'', ''Service'', ''BuildConfig'', ''Pod'', ''ReplicationController'',
      ''Deployment'', ''DeploymentConfig'', ''DaemonSet'', ''Ingress'', ''Job'']"

text \<open>
  \<open>kindSorter\<close> with \<open>newKindSorter\<close>, \<open>Len\<close>, \<open>Swap\<close> and \<open>Less\<close> (main.go, lines
  343 to 377). The loop of \<open>newKindSorter\<close> stores each kind's index, a later index
  replacing an earlier one. \<open>sort.Sort\<close> calls \<open>Less\<close> and \<open>Swap\<close> with indices below
  \<open>Len\<close> only.
\<close>

record kindSorter =
  ordering :: "string \<rightharpoonup> nat"
  manifests :: "manifest list"

fun ordering_loop :: "nat \<Rightarrow> string list \<Rightarrow> (string \<rightharpoonup> nat) \<Rightarrow> (string \<rightharpoonup> nat)" where
  "ordering_loop v [] o' = o'"
| "ordering_loop v (k # s) o' = ordering_loop (Suc v) s (o'(k \<mapsto> v))"

definition newKindSorter :: "manifest list \<Rightarrow> SortOrder \<Rightarrow> kindSorter" where
  "newKindSorter m s = \<lparr>ordering = ordering_loop 0 s Map.empty, manifests = m\<rparr>"

definition Len :: "kindSorter \<Rightarrow> nat" where
  "Len k = length (manifests k)"

definition Swap :: "kindSorter \<Rightarrow> nat \<Rightarrow> nat \<Rightarrow> kindSorter" where
  "Swap k i j = k\<lparr>manifests := (manifests k)[i := manifests k ! j, j := manifests k ! i]\<rparr>"

definition Less :: "kindSorter \<Rightarrow> nat \<Rightarrow> nat \<Rightarrow> bool" where
  "Less k i j =
     (let a = manifests k ! i; b = manifests k ! j in
      case ordering k (Kind (head a)) of
        None \<Rightarrow> False
      | Some first \<Rightarrow>
          (case ordering k (Kind (head b)) of
             None \<Rightarrow> True
           | Some second \<Rightarrow> first < second))"

text \<open>
  \<open>sort.Sort\<close> is Go's library, not code of the repository: \<open>sortByKind\<close> takes it as
  the parameter \<open>Sort\<close>. Its documented contract: it sorts in ascending order as
  determined by \<open>Less\<close> (what \<open>sort.IsSorted\<close> tests), by calls of \<open>Swap\<close>, which
  permute the manifests and leave the ordering alone; it is not guaranteed to be stable.
\<close>

definition IsSorted :: "kindSorter \<Rightarrow> bool" where
  "IsSorted data = (\<forall>i \<in> {1 ..< Len data}. \<not> Less data i (i - 1))"

definition sort_contract :: "(kindSorter \<Rightarrow> kindSorter) \<Rightarrow> bool" where
  "sort_contract Sort =
     (\<forall>data. ordering (Sort data) = ordering data
        \<and> mset (manifests (Sort data)) = mset (manifests data)
        \<and> IsSorted (Sort data))"

definition sortByKind :: "(kindSorter \<Rightarrow> kindSorter) \<Rightarrow> manifest list \<Rightarrow> SortOrder \<Rightarrow> manifest list" where
  "sortByKind Sort manifests' ordering' = manifests (Sort (newKindSorter manifests' ordering'))"

text \<open>
  The rank that \<open>Less\<close> compares: the index stored for the manifest's kind, and infinity
  for a kind that has none.
\<close>

definition rank :: "(string \<rightharpoonup> nat) \<Rightarrow> manifest \<Rightarrow> enat" where
  "rank o' m = (case o' (Kind (head m)) of None \<Rightarrow> \<infinity> | Some i \<Rightarrow> enat i)"

text \<open>
  What \<open>sort.Sort\<close> of Go 1.6 to 1.18 does on a slice of at most 12 elements (the branch
  of \<open>quickSort\<close> below its loop): one pass of Shell sort with gap 6, then
  \<open>insertionSort\<close>, both through \<open>Less\<close> and \<open>Swap\<close>. On every slice it is a sorting
  procedure that meets the contract (\<open>Sort_short_contract\<close> below).
\<close>

function insertionSort_inner :: "kindSorter \<Rightarrow> nat \<Rightarrow> nat \<Rightarrow> kindSorter" where
  "insertionSort_inner data a j =
     (if j > a \<and> Less data j (j - 1) then insertionSort_inner (Swap data j (j - 1)) a (j - 1)
      else data)"
  by pat_completeness auto
termination
  by (relation "measure (\<lambda>(data, a, j). j)") auto

function insertionSort_loop :: "kindSorter \<Rightarrow> nat \<Rightarrow> nat \<Rightarrow> nat \<Rightarrow> kindSorter" where
  "insertionSort_loop data a b i =
     (if i < b then insertionSort_loop (insertionSort_inner data a i) a b (i + 1) else data)"
  by pat_completeness auto
termination
  by (relation "measure (\<lambda>(data, a, b, i). b - i)") auto

definition insertionSort :: "kindSorter \<Rightarrow> nat \<Rightarrow> nat \<Rightarrow> kindSorter" where
  "insertionSort data a b = insertionSort_loop data a b (a + 1)"

function shellPass :: "kindSorter \<Rightarrow> nat \<Rightarrow> nat \<Rightarrow> kindSorter" where
  "shellPass data b i =
     (if i < b then shellPass (if Less data i (i - 6) then Swap data i (i - 6) else data) b (i + 1)
      else data)"
  by pat_completeness auto
termination
  by (relation "measure (\<lambda>(data, b, i). b - i)") auto

definition quickSort_short :: "kindSorter \<Rightarrow> nat \<Rightarrow> nat \<Rightarrow> kindSorter" where
  "quickSort_short data a b =
     (if b - a > 1 then insertionSort (shellPass data b (a + 6)) a b else data)"

definition Sort_short :: "kindSorter \<Rightarrow> kindSorter" where
  "Sort_short data = quickSort_short data 0 (Len data)"

declare insertionSort_inner.simps [simp del] insertionSort_loop.simps [simp del]
  shellPass.simps [simp del]

section \<open>ManifestClassifier: \<open>sortManifests\<close>\<close>

datatype error = ParseError string string | UnsupportedVersionError string string

text \<open>
  The loop over the comma-separated hook types (main.go, lines 285 to 293), on the flag
  \<open>isHook\<close> and the hook \<open>h\<close>.
\<close>

fun hook_events :: "pkgs \<Rightarrow> string list \<Rightarrow> bool \<times> Hook \<Rightarrow> bool \<times> Hook" where
  "hook_events L [] (isHook, h) = (isHook, h)"
| "hook_events L (hookType # rest) (isHook, h) =
     (case events (ToLower L (TrimSpace L hookType)) of
        Some e \<Rightarrow> hook_events L rest (True, h\<lparr>Events := Events h @ [e]\<rparr>)
      | None \<Rightarrow> hook_events L rest (isHook, h))"

text \<open>
  One iteration of the loop of \<open>sortManifests\<close> (main.go, lines 244 to 299) on the
  document \<open>n\<close> with the text \<open>c\<close>, as what it does to the loop: \<open>Continue\<close> for a
  \<open>continue\<close> that appends nothing, \<open>Return\<close> for a \<open>return\<close> with an error, and the
  two appends, each followed by the next iteration.
\<close>

datatype iteration = Continue | Return error | AppendGeneric manifest | AppendHook Hook

definition classify :: "pkgs \<Rightarrow> VersionSet \<Rightarrow> string \<Rightarrow> string \<Rightarrow> iteration" where
  "classify L apis n c =
     (if HasPrefix (path_Base n) ''_'' then Continue
      else if length (TrimSpace L c) = 0 then Continue
      else
        (case Unmarshal L c of
           Inl err \<Rightarrow> Return (ParseError n err)
         | Inr sh \<Rightarrow>
             if Version sh \<noteq> [] \<and> \<not> Has apis (Version sh)
             then Return (UnsupportedVersionError (Version sh) n)
             else
               (case Metadata sh of
                  None \<Rightarrow> AppendGeneric \<lparr>name = n, content = c, head = sh\<rparr>
                | Some md \<Rightarrow>
                    (case Annotations md of
                       None \<Rightarrow> AppendGeneric \<lparr>name = n, content = c, head = sh\<rparr>
                     | Some anns \<Rightarrow>
                         if length anns = 0
                         then AppendGeneric \<lparr>name = n, content = c, head = sh\<rparr>
                         else
                           (case map_of anns HookAnno of
                              None \<Rightarrow> AppendGeneric \<lparr>name = n, content = c, head = sh\<rparr>
                            | Some hookTypes \<Rightarrow>
                                (case hook_events L (Split hookTypes (CHR '',''))
                                        (False,
                                         \<lparr>Hook.Name = Name md, Hook.Kind = Kind sh, Path = n,
                                          Manifest = c, Events = []\<rparr>) of
                                   (isHook, h) \<Rightarrow>
                                     if \<not> isHook then Continue else AppendHook h))))))"

text \<open>
  The loop, over the documents in one iteration order of the map \<open>files\<close>, and
  \<open>sortManifests\<close> (main.go, lines 240 to 301). As in the source, a \<open>return\<close> with an
  error hands back the buckets filled so far, unsorted.
\<close>

fun sortManifests_loop ::
  "pkgs \<Rightarrow> VersionSet \<Rightarrow> (string \<times> string) list \<Rightarrow> Hook list \<Rightarrow> manifest list
     \<Rightarrow> Hook list \<times> manifest list \<times> error option" where
  "sortManifests_loop L apis [] hs generic = (hs, generic, None)"
| "sortManifests_loop L apis ((n, c) # files) hs generic =
     (case classify L apis n c of
        Continue \<Rightarrow> sortManifests_loop L apis files hs generic
      | Return e \<Rightarrow> (hs, generic, Some e)
      | AppendGeneric m \<Rightarrow> sortManifests_loop L apis files hs (generic @ [m])
      | AppendHook h \<Rightarrow> sortManifests_loop L apis files (hs @ [h]) generic)"

definition sortManifests ::
  "pkgs \<Rightarrow> (kindSorter \<Rightarrow> kindSorter) \<Rightarrow> (string \<times> string) list \<Rightarrow> VersionSet \<Rightarrow> SortOrder
     \<Rightarrow> Hook list \<times> manifest list \<times> error option" where
  "sortManifests L Sort files apis sort' =
     (case sortManifests_loop L apis files [] [] of
        (hs, generic, Some e) \<Rightarrow> (hs, generic, Some e)
      | (hs, generic, None) \<Rightarrow> (hs, sortByKind Sort generic sort', None))"

text \<open>
  The end of \<open>run\<close> (main.go, lines 105 to 118), from the rendered documents \<open>out\<close>: what
  it prints, one string for each call of \<open>Printf\<close> and \<open>Println\<close>, and the error it
  returns. The error of \<open>sortManifests\<close> is assigned and not read again, and \<open>run\<close>
  returns \<open>nil\<close>. \<open>chartutil.DefaultVersionSet\<close> is a parameter.
\<close>

fun run_print :: "bool \<Rightarrow> manifest list \<Rightarrow> string list" where
  "run_print showNotes [] = []"
| "run_print showNotes (m # ms) =
     (let b = path_Base (name m) in
      if \<not> showNotes \<and> b = ''NOTES.txt'' then run_print showNotes ms
      else if HasPrefix b ''_'' then run_print showNotes ms
      else (''---'' @ [CHR 0x0A] @ ''# Source: '' @ name m @ [CHR 0x0A])
             # (content m @ [CHR 0x0A]) # run_print showNotes ms)"

definition run_render ::
  "pkgs \<Rightarrow> (kindSorter \<Rightarrow> kindSorter) \<Rightarrow> VersionSet \<Rightarrow> bool \<Rightarrow> (string \<times> string) list
     \<Rightarrow> string list \<times> error option" where
  "run_render L Sort DefaultVersionSet showNotes out =
     (case sortManifests L Sort out DefaultVersionSet InstallOrder of
        (hs, manifests', err) \<Rightarrow> (run_print showNotes manifests', None))"

text \<open>
  The hook annotation of a head, if it has one; the events that the names of an annotation
  value stand for, in the order of the names; and the two tests by which the loop skips a
  document.
\<close>

definition hook_annotation :: "SimpleHead \<Rightarrow> string option" where
  "hook_annotation sh =
     (case Metadata sh of
        None \<Rightarrow> None
      | Some md \<Rightarrow> (case Annotations md of None \<Rightarrow> None | Some anns \<Rightarrow> map_of anns HookAnno))"

definition recognized :: "pkgs \<Rightarrow> string \<Rightarrow> Hook_Event list" where
  "recognized L hookTypes =
     List.map_filter (\<lambda>hookType. events (ToLower L (TrimSpace L hookType)))
       (Split hookTypes (CHR '',''))"

definition skipped :: "pkgs \<Rightarrow> string \<Rightarrow> string \<Rightarrow> bool" where
  "skipped L n c = (HasPrefix (path_Base n) ''_'' \<or> TrimSpace L c = [])"

text \<open>A manifest with a name and a kind, for the examples of sorting.\<close>

definition kind_manifest :: "string \<Rightarrow> string \<Rightarrow> manifest" where
  "kind_manifest n k =
     \<lparr>name = n, content = [], head = \<lparr>Version = ''v1'', Kind = k, Metadata = None\<rparr>\<rparr>"

section \<open>Properties of the merge\<close>

lemma mergeValues_Cons:
  "mergeValues dest ((k, v) # src) = mergeValues (AList.update k (stored (map_of dest k) v) dest) src"
  by (simp add: stored_def split: option.splits val.splits)

lemma map_of_mergeValues:
  "distinct (map fst src) \<Longrightarrow>
   map_of (mergeValues dest src) k =
     (case map_of src k of None \<Rightarrow> map_of dest k | Some v \<Rightarrow> Some (stored (map_of dest k) v))"
proof (induction src arbitrary: dest)
  case Nil
  then show ?case by simp
next
  case (Cons p src)
  obtain k' v' where p: "p = (k', v')" by (cases p)
  from Cons.prems p have d: "distinct (map fst src)" and nin: "k' \<notin> fst ` set src" by auto
  have nk: "map_of src k' = None" using nin by (simp add: map_of_eq_None_iff)
  show ?case
    unfolding p mergeValues_Cons
    by (simp add: Cons.IH [OF d] update_conv' nk split: option.splits)
qed

lemma keys_set_update:
  "fst ` set (AList.update k v al) = insert k (fst ` set al)"
  by (induction al) auto

lemma keys_mergeValues:
  "distinct (map fst src) \<Longrightarrow>
   map fst (mergeValues dest src) = map fst dest @ filter (\<lambda>k. k \<notin> fst ` set dest) (map fst src)"
proof (induction src arbitrary: dest)
  case Nil
  then show ?case by simp
next
  case (Cons p src)
  obtain k v where p: "p = (k, v)" by (cases p)
  from Cons.prems p have d: "distinct (map fst src)" and nin: "k \<notin> fst ` set src" by auto
  have f: "filter (\<lambda>x. x \<noteq> k \<and> x \<notin> fst ` set dest) (map fst src)
         = filter (\<lambda>x. x \<notin> fst ` set dest) (map fst src)"
    using nin by (intro filter_cong) auto
  show ?case
    unfolding p mergeValues_Cons
    by (auto simp: Cons.IH [OF d] update_keys keys_set_update f)
qed

lemma distinct_mergeValues:
  "distinct (map fst dest) \<Longrightarrow> distinct (map fst src) \<Longrightarrow> distinct (map fst (mergeValues dest src))"
  by (auto simp: keys_mergeValues)

lemma alist_eqI:
  "map fst xs = map fst ys \<Longrightarrow> distinct (map fst xs) \<Longrightarrow> map_of xs = map_of ys \<Longrightarrow> xs = ys"
proof (induction xs arbitrary: ys)
  case Nil
  then show ?case by simp
next
  case (Cons x xs)
  then obtain y ys' where ys: "ys = y # ys'" by (cases ys) auto
  obtain k v where x: "x = (k, v)" by (cases x)
  obtain k' v' where y: "y = (k', v')" by (cases y)
  from Cons.prems(1) ys x y have kk: "k' = k" and keys: "map fst xs = map fst ys'" by auto
  from Cons.prems(2) x have nin: "k \<notin> set (map fst xs)" and d: "distinct (map fst xs)" by auto
  from Cons.prems(3) have "map_of (x # xs) k = map_of ys k" by (rule fun_cong)
  with ys x y kk have vv: "v' = v" by simp
  have "map_of xs = map_of ys'"
  proof
    fix j
    show "map_of xs j = map_of ys' j"
    proof (cases "j = k")
      case True
      from nin have "map_of xs k = None" by (simp add: map_of_eq_None_iff)
      moreover from nin keys have "map_of ys' k = None" by (simp add: map_of_eq_None_iff)
      ultimately show ?thesis using True by simp
    next
      case False
      from Cons.prems(3) have "map_of (x # xs) j = map_of ys j" by (rule fun_cong)
      with False ys x y kk show ?thesis by simp
    qed
  qed
  with Cons.IH [OF keys d] have "xs = ys'" by simp
  with ys x y kk vv show ?case by simp
qed

lemma mergeValues_empty_dest:
  assumes "distinct (map fst src)"
  shows "mergeValues [] src = src"
proof (rule alist_eqI)
  show "map fst (mergeValues [] src) = map fst src"
    by (simp add: keys_mergeValues [OF assms])
  show "distinct (map fst (mergeValues [] src))"
    by (simp add: distinct_mergeValues assms)
  show "map_of (mergeValues [] src) = map_of src"
    by (rule ext) (simp add: map_of_mergeValues [OF assms] stored_def split: option.splits)
qed

lemma wf_val_lookup:
  "wf_val (Tree t) \<Longrightarrow> map_of t k = Some v \<Longrightarrow> wf_val v"
  by (auto dest: map_of_SomeD)

declare no_scalar_between.simps [simp del]

lemma no_scalar_between_lookup:
  assumes ok: "no_scalar_between b a c" and ck: "map_of c k = Some (Tree tc)"
    and bk: "map_of b k = Some (Tree tb)" and ak: "map_of a k = Some va"
  shows "\<exists>ta. va = Tree ta \<and> no_scalar_between tb ta tc"
proof -
  from ck have "(k, Tree tc) \<in> set c" by (rule map_of_SomeD)
  with ok have "case (k, Tree tc) of (k, w) \<Rightarrow>
        (case w of
           Tree tc \<Rightarrow>
             (case map_of b k of
                Some (Tree tb) \<Rightarrow>
                  (case map_of a k of
                     None \<Rightarrow> True
                   | Some (Tree ta) \<Rightarrow> no_scalar_between tb ta tc
                   | Some _ \<Rightarrow> False)
              | _ \<Rightarrow> True)
         | _ \<Rightarrow> True)"
    by (subst (asm) no_scalar_between.simps) (rule bspec)
  then show ?thesis
    by (simp add: bk ak split: val.splits)
qed

lemma mergeValues_assoc:
  "wf_val (Tree b) \<Longrightarrow> wf_val (Tree a) \<Longrightarrow> wf_val (Tree c) \<Longrightarrow> no_scalar_between b a c \<Longrightarrow>
   mergeValues (mergeValues b a) c = mergeValues b (mergeValues a c)"
proof (induction b a c rule: no_scalar_between.induct)
  case (1 b a c)
  from "1.prems" have db: "distinct (map fst b)" and da: "distinct (map fst a)"
    and dc: "distinct (map fst c)" by auto
  have dac: "distinct (map fst (mergeValues a c))" by (rule distinct_mergeValues [OF da dc])
  have dba: "distinct (map fst (mergeValues b a))" by (rule distinct_mergeValues [OF db da])
  have kba: "fst ` set (mergeValues b a) = fst ` set b \<union> fst ` set a"
    using keys_mergeValues [OF da, of b, THEN arg_cong, of set] by (auto simp flip: set_map)
  have "filter (\<lambda>k. k \<notin> fst ` set (mergeValues b a)) (map fst c)
      = filter (\<lambda>k. k \<notin> fst ` set b) (filter (\<lambda>k. k \<notin> fst ` set a) (map fst c))"
    unfolding kba by (auto intro: filter_cong)
  then have keys: "map fst (mergeValues (mergeValues b a) c) = map fst (mergeValues b (mergeValues a c))"
    unfolding keys_mergeValues [OF dac] keys_mergeValues [OF dc] keys_mergeValues [OF da]
    by simp
  have dl: "distinct (map fst (mergeValues (mergeValues b a) c))"
    by (rule distinct_mergeValues [OF dba dc])
  have sub: "mergeValues (mergeValues tb ta) tc = mergeValues tb (mergeValues ta tc)"
    if "map_of c k = Some (Tree tc)" "map_of b k = Some (Tree tb)" "map_of a k = Some (Tree ta)"
    for k tb ta tc
  proof -
    from that(1) have m: "(k, Tree tc) \<in> set c" by (rule map_of_SomeD)
    from no_scalar_between_lookup [OF "1.prems"(4) that(1) that(2) that(3)]
    have ok: "no_scalar_between tb ta tc" by simp
    show ?thesis
      using "1.IH" [OF m refl refl that(2) refl that(3) refl
          wf_val_lookup [OF "1.prems"(1) that(2)]
          wf_val_lookup [OF "1.prems"(2) that(3)]
          wf_val_lookup [OF "1.prems"(3) that(1)] ok] .
  qed
  have maps: "map_of (mergeValues (mergeValues b a) c) = map_of (mergeValues b (mergeValues a c))"
  proof
    fix k
    show "map_of (mergeValues (mergeValues b a) c) k = map_of (mergeValues b (mergeValues a c)) k"
    proof (cases "map_of c k")
      case None
      then show ?thesis
        by (simp add: map_of_mergeValues da dc dac split: option.splits)
    next
      case (Some w)
      show ?thesis
      proof (cases "\<exists>tc tb. w = Tree tc \<and> map_of b k = Some (Tree tb) \<and> map_of a k \<noteq> None")
        case True
        then obtain tc tb va where w: "w = Tree tc" and bk: "map_of b k = Some (Tree tb)"
          and ak: "map_of a k = Some va" by auto
        from no_scalar_between_lookup [OF "1.prems"(4) Some [unfolded w] bk ak]
        obtain ta where va: "va = Tree ta" by auto
        from sub [OF Some [unfolded w] bk ak [unfolded va]]
        show ?thesis
          by (simp add: map_of_mergeValues da dc dac Some w bk ak va stored_def)
      next
        case False
        then show ?thesis
          by (auto simp: map_of_mergeValues da dc dac Some stored_def split: option.splits val.splits)
      qed
    qed
  qed
  show ?case by (rule alist_eqI [OF keys dl maps])
qed

text \<open>
  Claim C1. For every base map and every override map (each key once), the merged map
  holds at every key: the base's value where the override has none; the override's value
  as it is (nested structure included) where the base has none; the override's value where
  that is no map, whatever the base held; the override's map where the base's value is no
  map; and the recursive merge of the two maps, stored back at that key, where both hold
  maps.
\<close>

theorem mergeValues_per_key:
  assumes "distinct (map fst src)"
  shows "map_of (mergeValues dest src) k =
    (case map_of src k of
       None \<Rightarrow> map_of dest k
     | Some v \<Rightarrow>
         (case map_of dest k of
            None \<Rightarrow> Some v
          | Some d \<Rightarrow>
              (case v of
                 Tree nextMap \<Rightarrow>
                   (case d of
                      Tree destMap \<Rightarrow> Some (Tree (mergeValues destMap nextMap))
                    | _ \<Rightarrow> Some v)
               | _ \<Rightarrow> Some v)))"
  by (simp add: map_of_mergeValues [OF assms] stored_def split: option.splits val.splits)

theorem mergeValues_per_key_witness:
  "distinct (map fst [(''a'', Tree [(''y'', Scalar ''2'')]), (''b'', Scalar ''3'')])
   \<and> map_of (mergeValues [(''a'', Tree [(''x'', Scalar ''1'')])]
        [(''a'', Tree [(''y'', Scalar ''2'')]), (''b'', Scalar ''3'')]) ''a''
     = Some (Tree (mergeValues [(''x'', Scalar ''1'')] [(''y'', Scalar ''2'')]))"
proof -
  have h: "distinct (map fst [(''a'', Tree [(''y'', Scalar ''2'')]), (''b'', Scalar ''3'')])"
    by simp
  have "map_of (mergeValues [(''a'', Tree [(''x'', Scalar ''1'')])]
        [(''a'', Tree [(''y'', Scalar ''2'')]), (''b'', Scalar ''3'')]) ''a''
     = Some (Tree (mergeValues [(''x'', Scalar ''1'')] [(''y'', Scalar ''2'')]))"
    by (simp add: mergeValues_per_key [OF h] del: mergeValues.simps)
  with h show ?thesis by (rule conjI)
qed

text \<open>
  Claim C6, as stated, fails: with a map in the base, a scalar in the first override and a
  map in the second at one key, merging step by step gives the second override's map alone,
  while merging the base with the merged overrides merges the base's map into it.
\<close>

theorem merge_assoc_counterexample:
  "mergeValues (mergeValues [(''k'', Tree [(''x'', Scalar ''1'')])] [(''k'', Scalar ''5'')])
       [(''k'', Tree [(''y'', Scalar ''2'')])]
     = [(''k'', Tree [(''y'', Scalar ''2'')])]
   \<and> mergeValues [(''k'', Tree [(''x'', Scalar ''1'')])]
       (merge_sequence [[(''k'', Scalar ''5'')], [(''k'', Tree [(''y'', Scalar ''2'')])]])
     = [(''k'', Tree [(''x'', Scalar ''1''), (''y'', Scalar ''2'')])]"
  by (simp add: merge_sequence_def)

text \<open>
  Claim C6, amended. For all maps \<open>base\<close>, \<open>A\<close> and \<open>B\<close> (each key once, at every
  level) such that no key holds a map in \<open>base\<close> and in \<open>B\<close> but a value that is no map
  in \<open>A\<close> (here and below the keys at which all three hold maps), merging \<open>B\<close> onto the
  merge of \<open>A\<close> onto \<open>base\<close> equals merging onto \<open>base\<close> the merge of the sequence
  \<open>[A, B]\<close>.
\<close>

theorem merge_assoc_amended:
  assumes "wf_val (Tree base)" and "wf_val (Tree A)" and "wf_val (Tree B)"
    and "no_scalar_between base A B"
  shows "mergeValues (mergeValues base A) B = mergeValues base (merge_sequence [A, B])"
proof -
  from assms(2) have "distinct (map fst A)" by simp
  then have "merge_sequence [A, B] = mergeValues A B"
    by (simp add: merge_sequence_def mergeValues_empty_dest)
  with mergeValues_assoc [OF assms] show ?thesis by simp
qed

theorem merge_assoc_amended_witness:
  "wf_val (Tree [(''k'', Tree [(''x'', Scalar ''1'')]), (''n'', Scalar ''0'')])
   \<and> wf_val (Tree [(''k'', Tree [(''x'', Scalar ''5'')]), (''m'', Scalar ''7'')])
   \<and> wf_val (Tree [(''k'', Tree [(''y'', Scalar ''2'')]), (''n'', Tree [])])
   \<and> no_scalar_between [(''k'', Tree [(''x'', Scalar ''1'')]), (''n'', Scalar ''0'')]
        [(''k'', Tree [(''x'', Scalar ''5'')]), (''m'', Scalar ''7'')]
        [(''k'', Tree [(''y'', Scalar ''2'')]), (''n'', Tree [])]
   \<and> mergeValues (mergeValues [(''k'', Tree [(''x'', Scalar ''1'')]), (''n'', Scalar ''0'')]
          [(''k'', Tree [(''x'', Scalar ''5'')]), (''m'', Scalar ''7'')])
        [(''k'', Tree [(''y'', Scalar ''2'')]), (''n'', Tree [])]
     = mergeValues [(''k'', Tree [(''x'', Scalar ''1'')]), (''n'', Scalar ''0'')]
        (merge_sequence [[(''k'', Tree [(''x'', Scalar ''5'')]), (''m'', Scalar ''7'')],
           [(''k'', Tree [(''y'', Scalar ''2'')]), (''n'', Tree [])]])"
proof -
  have h1: "wf_val (Tree [(''k'', Tree [(''x'', Scalar ''1'')]), (''n'', Scalar ''0'')])"
    by simp
  have h2: "wf_val (Tree [(''k'', Tree [(''x'', Scalar ''5'')]), (''m'', Scalar ''7'')])"
    by simp
  have h3: "wf_val (Tree [(''k'', Tree [(''y'', Scalar ''2'')]), (''n'', Tree [])])"
    by simp
  have h4: "no_scalar_between [(''k'', Tree [(''x'', Scalar ''1'')]), (''n'', Scalar ''0'')]
        [(''k'', Tree [(''x'', Scalar ''5'')]), (''m'', Scalar ''7'')]
        [(''k'', Tree [(''y'', Scalar ''2'')]), (''n'', Tree [])]"
    by (simp add: no_scalar_between.simps)
  show ?thesis
    by (intro conjI h1 h2 h3 h4 merge_assoc_amended [OF h1 h2 h3 h4])
qed

section \<open>Properties of the sorter\<close>

lemma Less_rank:
  "Less k i j \<longleftrightarrow> rank (ordering k) (manifests k ! i) < rank (ordering k) (manifests k ! j)"
  by (simp add: Less_def rank_def Let_def split: option.splits)

lemma IsSorted_sorted:
  assumes "IsSorted data"
  shows "sorted (map (rank (ordering data)) (manifests data))"
proof -
  have "map (rank (ordering data)) (manifests data) ! i
      \<le> map (rank (ordering data)) (manifests data) ! Suc i"
    if "Suc i < length (manifests data)" for i
  proof -
    from that have "Suc i \<in> {1 ..< Len data}" by (simp add: Len_def)
    with assms have "\<not> Less data (Suc i) (Suc i - 1)" unfolding IsSorted_def by (rule bspec)
    with that show ?thesis by (simp add: Less_rank)
  qed
  then show ?thesis by (simp add: sorted_iff_nth_Suc)
qed

lemma sorted_IsSorted:
  assumes "sorted (map (rank (ordering data)) (manifests data))"
  shows "IsSorted data"
  unfolding IsSorted_def
proof
  fix i assume "i \<in> {1 ..< Len data}"
  then have i: "0 < i" "i < length (manifests data)" by (simp_all add: Len_def)
  then have "map (rank (ordering data)) (manifests data) ! (i - 1)
       \<le> map (rank (ordering data)) (manifests data) ! i"
    using assms by (intro sorted_nth_mono) simp_all
  with i show "\<not> Less data i (i - 1)" by (simp add: Less_rank)
qed

lemma ordering_loop_notin:
  "k \<notin> set s \<Longrightarrow> ordering_loop v s o' k = o' k"
  by (induction s arbitrary: v o') auto

lemma ordering_loop_nth:
  "distinct s \<Longrightarrow> p < length s \<Longrightarrow> ordering_loop v s o' (s ! p) = Some (v + p)"
proof (induction s arbitrary: v o' p)
  case Nil
  then show ?case by simp
next
  case (Cons k s)
  show ?case
  proof (cases p)
    case 0
    with Cons.prems show ?thesis by (simp add: ordering_loop_notin)
  next
    case (Suc q)
    with Cons.prems show ?thesis by (simp add: Cons.IH del: fun_upd_apply)
  qed
qed

lemma ordering_loop_dom:
  "ordering_loop v s o' k \<noteq> None \<longleftrightarrow> k \<in> set s \<or> o' k \<noteq> None"
  by (induction s arbitrary: v o') auto

text \<open>The procedure of Go 1.6 to 1.18 for short slices meets the contract.\<close>

lemma inner_decomp:
  "manifests data = P @ x # Q \<Longrightarrow> j = length P \<Longrightarrow>
   \<exists>P1 P2. P = P1 @ P2 \<and> manifests (insertionSort_inner data 0 j) = P1 @ x # P2 @ Q
     \<and> ordering (insertionSort_inner data 0 j) = ordering data
     \<and> (\<forall>y \<in> set P2. rank (ordering data) x < rank (ordering data) y)
     \<and> (P1 \<noteq> [] \<longrightarrow> \<not> rank (ordering data) x < rank (ordering data) (last P1))"
proof (induction P arbitrary: data j Q rule: rev_induct)
  case Nil
  then show ?case by (simp add: insertionSort_inner.simps)
next
  case (snoc y P')
  have j: "j = Suc (length P')" using snoc.prems by simp
  have xj: "manifests data ! j = x" and yj: "manifests data ! (j - 1) = y"
    using snoc.prems by (simp_all add: nth_append)
  show ?case
  proof (cases "rank (ordering data) x < rank (ordering data) y")
    case True
    then have less: "Less data j (j - 1)" using xj yj by (simp add: Less_rank)
    have sw: "manifests (Swap data j (j - 1)) = P' @ x # (y # Q)"
      using snoc.prems by (simp add: Swap_def nth_append list_update_append)
    have so: "ordering (Swap data j (j - 1)) = ordering data" by (simp add: Swap_def)
    from snoc.IH [OF sw refl] so
    obtain P1 P2 where a: "P' = P1 @ P2"
      and b: "manifests (insertionSort_inner (Swap data j (j - 1)) 0 (length P')) = P1 @ x # P2 @ y # Q"
      and c: "ordering (insertionSort_inner (Swap data j (j - 1)) 0 (length P')) = ordering data"
      and d: "\<forall>y \<in> set P2. rank (ordering data) x < rank (ordering data) y"
      and e: "P1 \<noteq> [] \<longrightarrow> \<not> rank (ordering data) x < rank (ordering data) (last P1)"
      by auto
    have step: "insertionSort_inner data 0 j = insertionSort_inner (Swap data j (j - 1)) 0 (length P')"
      using less j by (subst insertionSort_inner.simps) simp
    show ?thesis
      apply (rule exI [of _ P1], rule exI [of _ "P2 @ [y]"])
      using a b c d e True step by simp
  next
    case False
    then have nless: "\<not> Less data j (j - 1)" using xj yj by (simp add: Less_rank)
    have step: "insertionSort_inner data 0 j = data"
      using nless by (subst insertionSort_inner.simps) simp
    show ?thesis
      apply (rule exI [of _ "P' @ [y]"], rule exI [of _ "[]"])
      using False snoc.prems step by simp
  qed
qed

lemma inner_step:
  assumes i: "i < length (manifests data)"
    and srt: "sorted (map (rank (ordering data)) (take i (manifests data)))"
  shows "sorted (map (rank (ordering data)) (take (Suc i) (manifests (insertionSort_inner data 0 i))))
    \<and> mset (manifests (insertionSort_inner data 0 i)) = mset (manifests data)
    \<and> ordering (insertionSort_inner data 0 i) = ordering data"
proof -
  let ?r = "rank (ordering data)"
  let ?P = "take i (manifests data)" and ?x = "manifests data ! i" and ?Q = "drop (Suc i) (manifests data)"
  have dec: "manifests data = ?P @ ?x # ?Q" using i by (rule id_take_nth_drop)
  have len: "i = length ?P" using i by simp
  from inner_decomp [OF dec len]
  obtain P1 P2 where a: "?P = P1 @ P2"
    and b: "manifests (insertionSort_inner data 0 i) = P1 @ ?x # P2 @ ?Q"
    and c: "ordering (insertionSort_inner data 0 i) = ordering data"
    and d: "\<forall>y \<in> set P2. ?r ?x < ?r y"
    and e: "P1 \<noteq> [] \<longrightarrow> \<not> ?r ?x < ?r (last P1)"
    by blast
  have lenP: "length P1 + length P2 = i" using a len by (metis length_append)
  from srt a have s12: "sorted (map ?r P1)" "sorted (map ?r P2)"
    and le12: "\<forall>p \<in> set P1. \<forall>q \<in> set P2. ?r p \<le> ?r q"
    by (auto simp: sorted_append)
  have p1x: "\<forall>p \<in> set P1. ?r p \<le> ?r ?x"
  proof
    fix p assume p: "p \<in> set P1"
    then have ne: "P1 \<noteq> []" by auto
    then have "P1 = butlast P1 @ [last P1]" by simp
    then have "map ?r P1 = map ?r (butlast P1) @ [?r (last P1)]" by (metis list.simps(8,9) map_append)
    with s12(1) have "\<forall>q \<in> set (butlast P1). ?r q \<le> ?r (last P1)"
      by (auto simp: sorted_append)
    moreover from p ne have "p = last P1 \<or> p \<in> set (butlast P1)"
      by (metis Un_iff append_butlast_last_id empty_iff empty_set set_ConsD set_append)
    ultimately have "?r p \<le> ?r (last P1)" by auto
    also from e ne have "\<dots> \<le> ?r ?x" by simp
    finally show "?r p \<le> ?r ?x" .
  qed
  have si: "Suc i = length (P1 @ ?x # P2)" using lenP by simp
  have "take (length (P1 @ ?x # P2)) ((P1 @ ?x # P2) @ ?Q) = P1 @ ?x # P2" by simp
  then have "take (Suc i) ((P1 @ ?x # P2) @ ?Q) = P1 @ ?x # P2" by (simp only: si)
  then have tk: "take (Suc i) (manifests (insertionSort_inner data 0 i)) = P1 @ ?x # P2"
    using b by simp
  have "sorted (map ?r (P1 @ ?x # P2))"
    using s12 le12 p1x d by (auto simp: sorted_append less_imp_le)
  moreover have "mset (manifests (insertionSort_inner data 0 i)) = mset (manifests data)"
    by (subst b, subst (3) dec, subst a) simp
  ultimately show ?thesis using tk c by simp
qed

lemma insertionSort_loop_correct:
  "0 < i \<Longrightarrow> i \<le> b \<Longrightarrow> b = length (manifests data) \<Longrightarrow>
   sorted (map (rank (ordering data)) (take i (manifests data))) \<Longrightarrow>
   sorted (map (rank (ordering data)) (manifests (insertionSort_loop data 0 b i)))
   \<and> mset (manifests (insertionSort_loop data 0 b i)) = mset (manifests data)
   \<and> ordering (insertionSort_loop data 0 b i) = ordering data"
proof (induction data "0::nat" b i rule: insertionSort_loop.induct)
  case (1 data b i)
  show ?case
  proof (cases "i < b")
    case True
    let ?d = "insertionSort_inner data 0 i"
    from True "1.prems" have il: "i < length (manifests data)" by simp
    from inner_step [OF il "1.prems"(4)]
    have s: "sorted (map (rank (ordering data)) (take (Suc i) (manifests ?d)))"
      and m: "mset (manifests ?d) = mset (manifests data)"
      and o: "ordering ?d = ordering data" by simp_all
    from m have l: "length (manifests ?d) = length (manifests data)" by (rule mset_eq_length)
    have "sorted (map (rank (ordering ?d)) (manifests (insertionSort_loop ?d 0 b (i + 1))))
      \<and> mset (manifests (insertionSort_loop ?d 0 b (i + 1))) = mset (manifests ?d)
      \<and> ordering (insertionSort_loop ?d 0 b (i + 1)) = ordering ?d"
      using True "1.prems" s l o by (intro "1.hyps") simp_all
    moreover have "insertionSort_loop data 0 b i = insertionSort_loop ?d 0 b (i + 1)"
      using True by (subst insertionSort_loop.simps) simp
    ultimately show ?thesis using m o by simp
  next
    case False
    with "1.prems" have "i = length (manifests data)" by simp
    moreover have "insertionSort_loop data 0 b i = data"
      using False by (subst insertionSort_loop.simps) simp
    ultimately show ?thesis using "1.prems"(4) by simp
  qed
qed

lemma Swap_props:
  "i < length (manifests data) \<Longrightarrow> j < length (manifests data) \<Longrightarrow>
   mset (manifests (Swap data i j)) = mset (manifests data)"
  "ordering (Swap data i j) = ordering data"
  by (simp_all add: Swap_def mset_swap)

lemma shellPass_props:
  "b = length (manifests data) \<Longrightarrow>
   mset (manifests (shellPass data b i)) = mset (manifests data)
   \<and> ordering (shellPass data b i) = ordering data"
proof (induction data b i rule: shellPass.induct)
  case (1 data b i)
  show ?case
  proof (cases "i < b")
    case True
    let ?d = "if Less data i (i - 6) then Swap data i (i - 6) else data"
    from True "1.prems" have m: "mset (manifests ?d) = mset (manifests data)"
      and o: "ordering ?d = ordering data"
      by (simp_all add: Swap_props)
    from m have l: "length (manifests ?d) = length (manifests data)" by (rule mset_eq_length)
    have "mset (manifests (shellPass ?d b (i + 1))) = mset (manifests ?d)
      \<and> ordering (shellPass ?d b (i + 1)) = ordering ?d"
      using True "1.prems" l by (intro "1.IH") simp_all
    moreover have "shellPass data b i = shellPass ?d b (i + 1)"
      using True by (subst shellPass.simps) simp
    ultimately show ?thesis using m o by simp
  next
    case False
    then have "shellPass data b i = data" by (subst shellPass.simps) simp
    then show ?thesis by simp
  qed
qed

lemma Sort_short_contract: "sort_contract Sort_short"
  unfolding sort_contract_def
proof
  fix data :: kindSorter
  let ?n = "length (manifests data)"
  show "ordering (Sort_short data) = ordering data
        \<and> mset (manifests (Sort_short data)) = mset (manifests data)
        \<and> IsSorted (Sort_short data)"
  proof (cases "?n > 1")
    case True
    let ?d = "shellPass data ?n 6"
    from shellPass_props [OF refl, of data 6]
    have m: "mset (manifests ?d) = mset (manifests data)" and o: "ordering ?d = ordering data"
      by simp_all
    from m have l: "length (manifests ?d) = ?n" by (rule mset_eq_length)
    have t1: "sorted (map (rank (ordering ?d)) (take 1 (manifests ?d)))"
      by (cases "manifests ?d") simp_all
    have "sorted (map (rank (ordering ?d)) (manifests (insertionSort_loop ?d 0 ?n 1)))
      \<and> mset (manifests (insertionSort_loop ?d 0 ?n 1)) = mset (manifests ?d)
      \<and> ordering (insertionSort_loop ?d 0 ?n 1) = ordering ?d"
      using True l t1 by (intro insertionSort_loop_correct) simp_all
    moreover have "Sort_short data = insertionSort_loop ?d 0 ?n 1"
      using True by (simp add: Sort_short_def quickSort_short_def insertionSort_def Len_def)
    ultimately show ?thesis using m o by (simp add: sorted_IsSorted)
  next
    case False
    then have e: "Sort_short data = data"
      by (simp add: Sort_short_def quickSort_short_def Len_def)
    from False have "IsSorted data" by (auto simp: IsSorted_def Len_def)
    with e show ?thesis by simp
  qed
qed

lemma sortByKind_mset:
  "sort_contract Sort \<Longrightarrow> mset (sortByKind Sort ms ord) = mset ms"
  by (simp add: sort_contract_def sortByKind_def newKindSorter_def)

lemma sortByKind_sorted:
  assumes "sort_contract Sort"
  shows "sorted (map (rank (ordering_loop 0 ord Map.empty)) (sortByKind Sort ms ord))"
proof -
  let ?ks = "newKindSorter ms ord"
  from assms have "IsSorted (Sort ?ks)" and "ordering (Sort ?ks) = ordering ?ks"
    by (simp_all add: sort_contract_def)
  from IsSorted_sorted [OF this(1)] this(2) show ?thesis
    by (simp add: sortByKind_def newKindSorter_def)
qed

lemma rank_unknown:
  "rank (ordering_loop 0 ord Map.empty) m = \<infinity> \<longleftrightarrow> Kind (head m) \<notin> set ord"
  using ordering_loop_dom [of 0 ord Map.empty "Kind (head m)"]
  by (auto simp: rank_def split: option.splits)

lemma rank_known:
  "distinct ord \<Longrightarrow> p < length ord \<Longrightarrow> ord ! p = Kind (head m) \<Longrightarrow>
   rank (ordering_loop 0 ord Map.empty) m = enat p"
  using ordering_loop_nth [of ord p 0 Map.empty] by (simp add: rank_def)

lemma sorted_by_unique:
  fixes f :: "'a \<Rightarrow> 'b::linorder"
  assumes d: "distinct (map f xs)" and m: "mset ys = mset xs" and s: "sorted (map f ys)"
  shows "ys = sort_key f xs"
proof -
  have sets: "set ys = set xs" using m by (rule mset_eq_setD)
  have "mset (map f ys) = mset (map f xs)" using m by simp
  then have dy: "distinct (map f ys)" using d by (metis mset_eq_imp_distinct_iff)
  have "map f ys = map f (sort_key f xs)"
  proof (rule sorted_distinct_set_unique)
    show "sorted (map f ys)" by (rule s)
    show "distinct (map f ys)" by (rule dy)
    show "sorted (map f (sort_key f xs))" by simp
    show "distinct (map f (sort_key f xs))" using d by (simp add: distinct_map)
    show "set (map f ys) = set (map f (sort_key f xs))" using sets by simp
  qed
  moreover have "inj_on f (set ys \<union> set (sort_key f xs))"
    using d sets by (simp add: distinct_map)
  ultimately show ?thesis by (simp add: inj_on_map_eq_map)
qed

lemmas Sort_short_eval =
  sortByKind_def Sort_short_def quickSort_short_def newKindSorter_def Len_def
  insertionSort_def Less_def Swap_def
  insertionSort_inner.simps insertionSort_loop.simps shellPass.simps

text \<open>
  Claim C2. For every sorting procedure that meets the contract of \<open>sort.Sort\<close>, every
  sequence of manifests and every SortOrder without duplicates, in the output of
  \<open>sortByKind\<close> a manifest whose kind is in the SortOrder never comes after one whose
  kind is not, and the manifests with known kinds stand in nondecreasing order of their
  kinds' indices in the SortOrder. In particular manifests of the kinds Deployment, Secret,
  Unknown, ConfigMap, sorted against Secret, ConfigMap, Service, Deployment, come out as
  Secret, ConfigMap, Deployment, Unknown.
\<close>

theorem sortByKind_ordered:
  assumes c: "sort_contract Sort"
  shows "(distinct ord \<longrightarrow>
          (\<forall>i j. i < j \<and> j < length (sortByKind Sort ms ord) \<longrightarrow>
             (Kind (head (sortByKind Sort ms ord ! j)) \<in> set ord
                \<longrightarrow> Kind (head (sortByKind Sort ms ord ! i)) \<in> set ord)
             \<and> (\<forall>p q. p < length ord \<and> q < length ord
                   \<and> ord ! p = Kind (head (sortByKind Sort ms ord ! i))
                   \<and> ord ! q = Kind (head (sortByKind Sort ms ord ! j)) \<longrightarrow> p \<le> q)))
       \<and> (Kind (head m1) = ''Deployment'' \<and> Kind (head m2) = ''Secret''
            \<and> Kind (head m3) = ''Unknown'' \<and> Kind (head m4) = ''ConfigMap'' \<longrightarrow>
           sortByKind Sort [m1, m2, m3, m4] [''Secret'', ''ConfigMap'', ''Service'', ''Deployment'']
             = [m2, m4, m1, m3])"
proof (intro conjI impI allI)
  fix i j
  let ?out = "sortByKind Sort ms ord"
  let ?r = "rank (ordering_loop 0 ord Map.empty)"
  assume d: "distinct ord" and ij: "i < j \<and> j < length ?out"
  from sortByKind_sorted [OF c, of ord ms] ij
  have "map ?r ?out ! i \<le> map ?r ?out ! j"
    by (intro sorted_nth_mono) simp_all
  with ij have le: "?r (?out ! i) \<le> ?r (?out ! j)" by simp
  {
    assume "Kind (head (?out ! j)) \<in> set ord"
    then have "?r (?out ! j) \<noteq> \<infinity>" by (simp add: rank_unknown)
    with le have "?r (?out ! i) \<noteq> \<infinity>" by (metis enat_ord_simps(5))
    then show "Kind (head (?out ! i)) \<in> set ord" by (simp add: rank_unknown)
  }
  {
    fix p q
    assume pq: "p < length ord \<and> q < length ord
       \<and> ord ! p = Kind (head (?out ! i)) \<and> ord ! q = Kind (head (?out ! j))"
    then have "?r (?out ! i) = enat p" "?r (?out ! j) = enat q"
      using d by (simp_all add: rank_known)
    with le show "p \<le> q" by simp
  }
next
  let ?ord = "[''Secret'', ''ConfigMap'', ''Service'', ''Deployment'']"
  define r where "r = rank (ordering_loop 0 ?ord Map.empty)"
  assume k: "Kind (head m1) = ''Deployment'' \<and> Kind (head m2) = ''Secret''
            \<and> Kind (head m3) = ''Unknown'' \<and> Kind (head m4) = ''ConfigMap''"
  then have r: "r m1 = enat 3" "r m2 = enat 0" "r m3 = \<infinity>" "r m4 = enat 1"
    by (simp_all add: r_def rank_def)
  have "sortByKind Sort [m1, m2, m3, m4] ?ord = sort_key r [m1, m2, m3, m4]"
  proof (rule sorted_by_unique)
    show "distinct (map r [m1, m2, m3, m4])" by (simp add: r)
    show "mset (sortByKind Sort [m1, m2, m3, m4] ?ord) = mset [m1, m2, m3, m4]"
      by (rule sortByKind_mset [OF c])
    show "sorted (map r (sortByKind Sort [m1, m2, m3, m4] ?ord))"
      unfolding r_def by (rule sortByKind_sorted [OF c])
  qed
  also have "\<dots> = [m2, m4, m1, m3]" by (simp add: r)
  finally show "sortByKind Sort [m1, m2, m3, m4] ?ord = [m2, m4, m1, m3]" .
qed

theorem sortByKind_ordered_witness:
  "sort_contract Sort_short
   \<and> distinct [''Secret'', ''ConfigMap'', ''Service'', ''Deployment'']
   \<and> sortByKind Sort_short
        [kind_manifest ''a'' ''Deployment'', kind_manifest ''b'' ''Secret'',
         kind_manifest ''c'' ''Unknown'', kind_manifest ''d'' ''ConfigMap'']
        [''Secret'', ''ConfigMap'', ''Service'', ''Deployment'']
      = [kind_manifest ''b'' ''Secret'', kind_manifest ''d'' ''ConfigMap'',
         kind_manifest ''a'' ''Deployment'', kind_manifest ''c'' ''Unknown'']"
proof -
  have c: "sort_contract Sort_short" by (rule Sort_short_contract)
  have d: "distinct [''Secret'', ''ConfigMap'', ''Service'', ''Deployment'']" by simp
  have k: "Kind (head (kind_manifest ''a'' ''Deployment'')) = ''Deployment''
      \<and> Kind (head (kind_manifest ''b'' ''Secret'')) = ''Secret''
      \<and> Kind (head (kind_manifest ''c'' ''Unknown'')) = ''Unknown''
      \<and> Kind (head (kind_manifest ''d'' ''ConfigMap'')) = ''ConfigMap''"
    by (simp add: kind_manifest_def)
  from sortByKind_ordered [OF c, of "[''Secret'', ''ConfigMap'', ''Service'', ''Deployment'']" "[]"
      "kind_manifest ''a'' ''Deployment''" "kind_manifest ''b'' ''Secret''"
      "kind_manifest ''c'' ''Unknown''" "kind_manifest ''d'' ''ConfigMap''"]
  have "Kind (head (kind_manifest ''a'' ''Deployment'')) = ''Deployment''
      \<and> Kind (head (kind_manifest ''b'' ''Secret'')) = ''Secret''
      \<and> Kind (head (kind_manifest ''c'' ''Unknown'')) = ''Unknown''
      \<and> Kind (head (kind_manifest ''d'' ''ConfigMap'')) = ''ConfigMap'' \<longrightarrow>
    sortByKind Sort_short
        [kind_manifest ''a'' ''Deployment'', kind_manifest ''b'' ''Secret'',
         kind_manifest ''c'' ''Unknown'', kind_manifest ''d'' ''ConfigMap'']
        [''Secret'', ''ConfigMap'', ''Service'', ''Deployment'']
      = [kind_manifest ''b'' ''Secret'', kind_manifest ''d'' ''ConfigMap'',
         kind_manifest ''a'' ''Deployment'', kind_manifest ''c'' ''Unknown'']"
    by (rule conjunct2)
  from this k have e: "sortByKind Sort_short
        [kind_manifest ''a'' ''Deployment'', kind_manifest ''b'' ''Secret'',
         kind_manifest ''c'' ''Unknown'', kind_manifest ''d'' ''ConfigMap'']
        [''Secret'', ''ConfigMap'', ''Service'', ''Deployment'']
      = [kind_manifest ''b'' ''Secret'', kind_manifest ''d'' ''ConfigMap'',
         kind_manifest ''a'' ''Deployment'', kind_manifest ''c'' ''Unknown'']"
    by (rule mp)
  show ?thesis by (intro conjI c d e)
qed

text \<open>
  Claim C5, as stated, fails: \<open>sortByKind\<close> calls \<open>sort.Sort\<close>, which is not stable.
  With the procedure of Go 1.6 to 1.18, of seven manifests the two Deployments \<open>a\<close> and
  \<open>b\<close> come out as \<open>b\<close>, \<open>a\<close>: the pass with gap 6 swaps \<open>a\<close> with the Secret
  \<open>g\<close>.
\<close>

theorem sortByKind_unstable_counterexample:
  "map name (sortByKind Sort_short
     [kind_manifest ''a'' ''Deployment'', kind_manifest ''b'' ''Deployment'',
      kind_manifest ''c'' ''ConfigMap'', kind_manifest ''d'' ''ConfigMap'',
      kind_manifest ''e'' ''ConfigMap'', kind_manifest ''f'' ''ConfigMap'',
      kind_manifest ''g'' ''Secret'']
     [''Secret'', ''ConfigMap'', ''Service'', ''Deployment''])
   = [''g'', ''c'', ''d'', ''e'', ''f'', ''b'', ''a'']"
  by (simp add: Sort_short_eval kind_manifest_def)

text \<open>
  Claim C5, amended. For every sorting procedure that meets the contract of
  \<open>sort.Sort\<close>, the ranks of the output of \<open>sortByKind\<close> are the sorted ranks of its
  input, and for every rank the manifests that tie at it are the same in the output as in
  the input, as a multiset: they fill one run of the output, in an order that the contract
  does not fix.
\<close>

theorem sortByKind_ties:
  assumes "sort_contract Sort"
  shows "map (rank (ordering_loop 0 ord Map.empty)) (sortByKind Sort ms ord)
           = sort (map (rank (ordering_loop 0 ord Map.empty)) ms)
         \<and> mset (filter (\<lambda>m. rank (ordering_loop 0 ord Map.empty) m = r) (sortByKind Sort ms ord))
           = mset (filter (\<lambda>m. rank (ordering_loop 0 ord Map.empty) m = r) ms)"
proof
  let ?r = "rank (ordering_loop 0 ord Map.empty)"
  have "mset (map ?r (sortByKind Sort ms ord)) = mset (map ?r ms)"
    by (simp add: sortByKind_mset [OF assms])
  from properties_for_sort [OF this sortByKind_sorted [OF assms]]
  show "map ?r (sortByKind Sort ms ord) = sort (map ?r ms)" by simp
  show "mset (filter (\<lambda>m. ?r m = r) (sortByKind Sort ms ord)) = mset (filter (\<lambda>m. ?r m = r) ms)"
    by (simp add: sortByKind_mset [OF assms])
qed


theorem sortByKind_ties_witness:
  "sort_contract Sort_short
   \<and> map (rank (ordering_loop 0 [''Secret'', ''Deployment''] Map.empty))
       (sortByKind Sort_short
          [kind_manifest ''a'' ''Deployment'', kind_manifest ''b'' ''Secret'',
           kind_manifest ''c'' ''Deployment''] [''Secret'', ''Deployment''])
     = sort (map (rank (ordering_loop 0 [''Secret'', ''Deployment''] Map.empty))
          [kind_manifest ''a'' ''Deployment'', kind_manifest ''b'' ''Secret'',
           kind_manifest ''c'' ''Deployment''])
   \<and> mset (filter (\<lambda>m. rank (ordering_loop 0 [''Secret'', ''Deployment''] Map.empty) m = enat 1)
       (sortByKind Sort_short
          [kind_manifest ''a'' ''Deployment'', kind_manifest ''b'' ''Secret'',
           kind_manifest ''c'' ''Deployment''] [''Secret'', ''Deployment'']))
     = mset (filter (\<lambda>m. rank (ordering_loop 0 [''Secret'', ''Deployment''] Map.empty) m = enat 1)
          [kind_manifest ''a'' ''Deployment'', kind_manifest ''b'' ''Secret'',
           kind_manifest ''c'' ''Deployment''])"
  using Sort_short_contract sortByKind_ties [OF Sort_short_contract] by blast

end
